theory Spec2Isabelle
  imports Main "HOL-Library.Char_ord" "HOL-Library.List_Lexorder" "HOL-Library.Multiset"
begin

section \<open>Paths\<close>

text \<open>
  A \<^verbatim>\<open>pathlib.Path\<close> is its list of parts. Parts are compared as strings, character by
  character (\<^verbatim>\<open>Char_ord\<close>), and paths are compared part by part (\<^verbatim>\<open>List_Lexorder\<close>),
  which is the order of \<^verbatim>\<open>PurePosixPath.__lt__\<close>.
\<close>

type_synonym path = "string list"

text \<open>\<^verbatim>\<open>str(path)\<close>: the parts joined by a slash; the empty path prints as a dot.\<close>

fun join_parts :: "string list \<Rightarrow> string" where
  "join_parts [] = []"
| "join_parts [x] = x"
| "join_parts (x # y # ys) = x @ ''/'' @ join_parts (y # ys)"

definition str_path :: "path \<Rightarrow> string" where
  "str_path p = (if p = [] then ''.'' else join_parts p)"

text \<open>\<^verbatim>\<open>PurePath.name\<close> and \<^verbatim>\<open>PurePath.parent\<close>.\<close>

definition name :: "path \<Rightarrow> string" where
  "name p = (if p = [] then [] else last p)"

definition parent :: "path \<Rightarrow> path" where
  "parent p = butlast p"

text \<open>\<^verbatim>\<open>str.rfind\<close> for a single character: the last index, or \<open>-1\<close>.\<close>

primrec rfind_from :: "char \<Rightarrow> string \<Rightarrow> int \<Rightarrow> int \<Rightarrow> int" where
  "rfind_from c [] i r = r"
| "rfind_from c (x # xs) i r = rfind_from c xs (i + 1) (if x = c then i else r)"

definition rfind :: "string \<Rightarrow> char \<Rightarrow> int" where
  "rfind s c = rfind_from c s 0 (- 1)"

text \<open>
  \<^verbatim>\<open>PurePath.suffix\<close> and \<^verbatim>\<open>PurePath.stem\<close>:
  \<^verbatim>\<open>i = name.rfind('.'); if 0 < i < len(name) - 1: return name[i:] else: return ''\<close>.
\<close>

definition path_suffix :: "path \<Rightarrow> string" where
  "path_suffix p =
     (let nm = name p; i = rfind nm (CHR ''.'')
      in if 0 < i \<and> i < int (length nm) - 1 then drop (nat i) nm else [])"

definition stem :: "path \<Rightarrow> string" where
  "stem p =
     (let nm = name p; i = rfind nm (CHR ''.'')
      in if 0 < i \<and> i < int (length nm) - 1 then take (nat i) nm else nm)"

section \<open>Exceptions\<close>

text \<open>
  The exceptions that the calls of \<^verbatim>\<open>process_file\<close> can raise, all subclasses of
  \<^verbatim>\<open>Exception\<close>: \<^verbatim>\<open>ValueError\<close> from \<^verbatim>\<open>with_suffix\<close>, the two \<^verbatim>\<open>OSError\<close>s of
  \<^verbatim>\<open>unlink\<close>, and whatever the rendering library raises, kept as its message.
\<close>

datatype exn =
    ValueError string
  | IsADirectoryError path
  | FileNotFoundError path
  | LibraryError string

definition quoted :: "string \<Rightarrow> string" where
  "quoted s = [CHR 0x27] @ s @ [CHR 0x27]"

text \<open>\<^verbatim>\<open>str(e)\<close>, what the f-string \<^verbatim>\<open>{e}\<close> prints.\<close>

fun str_exn :: "exn \<Rightarrow> string" where
  "str_exn (ValueError msg) = msg"
| "str_exn (IsADirectoryError p) = ''[Errno 21] Is a directory: '' @ quoted (str_path p)"
| "str_exn (FileNotFoundError p) = ''[Errno 2] No such file or directory: '' @ quoted (str_path p)"
| "str_exn (LibraryError msg) = msg"

text \<open>
  \<^verbatim>\<open>PurePath.with_suffix\<close>: an invalid suffix or an empty name raises \<^verbatim>\<open>ValueError\<close>;
  a name with no suffix gets the new one appended, otherwise the old suffix is cut off
  and the new one put in its place.
\<close>

definition with_suffix :: "path \<Rightarrow> string \<Rightarrow> exn + path" where
  "with_suffix p sfx =
     (if CHR ''/'' \<in> set sfx then Inl (ValueError (''Invalid suffix '' @ quoted sfx))
      else if (sfx \<noteq> [] \<and> hd sfx \<noteq> CHR ''.'') \<or> sfx = ''.''
        then Inl (ValueError (''Invalid suffix '' @ quoted sfx))
      else
        let nm = name p in
        if nm = [] then
          Inl (ValueError (''PosixPath('' @ quoted (str_path p) @ '') has an empty name''))
        else
          let old_suffix = path_suffix p;
              nm' = (if old_suffix = [] then nm @ sfx
                     else take (length nm - length old_suffix) nm @ sfx)
          in Inr (butlast p @ [nm']))"

section \<open>The file system\<close>

text \<open>
  A directory tree: a regular file with its content, or a directory with its entries in
  the order in which the operating system lists them. Paths are read from the root of
  the tree.
\<close>

datatype node = File string | Dir "(string \<times> node) list"

fun lookup :: "node \<Rightarrow> path \<Rightarrow> node option" where
  "lookup n [] = Some n"
| "lookup (File c) (x # xs) = None"
| "lookup (Dir es) (x # xs) =
     (case map_of es x of None \<Rightarrow> None | Some m \<Rightarrow> lookup m xs)"

text \<open>\<^verbatim>\<open>Path.exists\<close>, \<^verbatim>\<open>Path.is_dir\<close>.\<close>

definition exists :: "node \<Rightarrow> path \<Rightarrow> bool" where
  "exists fs p = (lookup fs p \<noteq> None)"

definition is_dir :: "node \<Rightarrow> path \<Rightarrow> bool" where
  "is_dir fs p = (case lookup fs p of Some (Dir es) \<Rightarrow> True | _ \<Rightarrow> False)"

definition is_file :: "node \<Rightarrow> path \<Rightarrow> bool" where
  "is_file fs p = (case lookup fs p of Some (File c) \<Rightarrow> True | _ \<Rightarrow> False)"

text \<open>The tree without the entry at a path.\<close>

fun remove_entry :: "node \<Rightarrow> path \<Rightarrow> node" where
  "remove_entry n [] = n"
| "remove_entry (File c) (x # xs) = File c"
| "remove_entry (Dir es) [x] = Dir (filter (\<lambda>e. fst e \<noteq> x) es)"
| "remove_entry (Dir es) (x # y # ys) =
     Dir (map (\<lambda>e. if fst e = x then (fst e, remove_entry (snd e) (y # ys)) else e) es)"

text \<open>
  \<^verbatim>\<open>Path.unlink\<close>: removes a regular file; raises on a directory and on a missing path.
\<close>

definition unlink :: "node \<Rightarrow> path \<Rightarrow> exn + node" where
  "unlink fs p =
     (case lookup fs p of
        None \<Rightarrow> Inl (FileNotFoundError p)
      | Some (Dir es) \<Rightarrow> Inl (IsADirectoryError p)
      | Some (File c) \<Rightarrow> Inr (remove_entry fs p))"

text \<open>No directory lists two entries under one name.\<close>

fun wf_node :: "node \<Rightarrow> bool" where
  "wf_node (File c) = True"
| "wf_node (Dir es) = (distinct (map fst es) \<and> (\<forall>e \<in> set es. wf_node (snd e)))"

section \<open>Discovery\<close>

text \<open>
  \<^verbatim>\<open>fnmatch\<close> on one name, case-sensitive as on POSIX, for patterns of literal characters,
  \<^verbatim>\<open>*\<close> and \<^verbatim>\<open>?\<close>.
\<close>

fun fnmatch :: "string \<Rightarrow> string \<Rightarrow> bool" where
  "fnmatch [] [] = True"
| "fnmatch (c # cs) [] = False"
| "fnmatch [] (p # ps) = (p = CHR ''*'' \<and> fnmatch [] ps)"
| "fnmatch (c # cs) (p # ps) =
     (if p = CHR ''*'' then fnmatch (c # cs) ps \<or> fnmatch cs (p # ps)
      else if p = CHR ''?'' then fnmatch cs ps
      else c = p \<and> fnmatch cs ps)"

text \<open>
  The traversal of \<^verbatim>\<open>Path.rglob\<close> below a directory node whose path is \<open>p\<close>: the
  entries of the directory that match, in listing order, then the same for each
  subdirectory. Every entry is a candidate, directories too; the starting directory
  itself is not.
\<close>

fun rglob_node :: "string \<Rightarrow> path \<Rightarrow> node \<Rightarrow> path list" where
  "rglob_node pat p (File c) = []"
| "rglob_node pat p (Dir es) =
     map (\<lambda>e. p @ [fst e]) (filter (\<lambda>e. fnmatch (fst e) pat) es)
     @ concat (map (\<lambda>e. rglob_node pat (p @ [fst e]) (snd e)) es)"

text \<open>\<^verbatim>\<open>path.rglob(pattern)\<close>; a path that is no directory yields nothing.\<close>

definition rglob :: "node \<Rightarrow> path \<Rightarrow> string \<Rightarrow> path list" where
  "rglob fs p pat = (case lookup fs p of None \<Rightarrow> [] | Some n \<Rightarrow> rglob_node pat p n)"

text \<open>\<^verbatim>\<open>find_files\<close>: \<^verbatim>\<open>files = input_dir.rglob('*svg'); return sorted(files)\<close>.\<close>

definition find_files :: "node \<Rightarrow> path \<Rightarrow> path list" where
  "find_files fs input_dir = (let files = rglob fs input_dir ''*svg'' in sort files)"

section \<open>Conversion\<close>

text \<open>
  What the program does to the outside world, in order: the traversal, each deletion,
  each call of the rendering library with its arguments, and each line printed to
  standard output or standard error.
\<close>

datatype event =
    Rglob path string
  | Unlink path
  | Svg2png string string nat nat
  | Stdout string
  | Stderr string

text \<open>
  \<^verbatim>\<open>cairosvg.svg2png(url, write_to, output_width, output_height)\<close> is outside the
  program: a parameter that takes the file system and the arguments of the call and
  gives back the file system as the call left it, with the exception if it raised one.
\<close>

type_synonym renderer = "node \<Rightarrow> string \<Rightarrow> string \<Rightarrow> nat \<Rightarrow> nat \<Rightarrow> node \<times> exn option"

definition processed_msg :: "path \<Rightarrow> string" where
  "processed_msg input_file =
     [CHR 0xE2, CHR 0x9C, CHR 0x93] @ '' Processed: '' @ str_path input_file"

definition exception_msg :: "path \<Rightarrow> exn \<Rightarrow> string" where
  "exception_msg input_file e =
     ''Exception processing '' @ str_path input_file @ '': '' @ str_exn e"

text \<open>
  \<^verbatim>\<open>process_file\<close>: the body of the \<^verbatim>\<open>try\<close>, each call that can raise leading to the
  \<^verbatim>\<open>except\<close> branch, which prints to standard error and returns \<^verbatim>\<open>False\<close>.
\<close>

definition process_file :: "renderer \<Rightarrow> node \<Rightarrow> path \<Rightarrow> node \<times> event list \<times> bool" where
  "process_file svg2png fs input_file =
     (case with_suffix input_file ''.png'' of
        Inl e \<Rightarrow> (fs, [Stderr (exception_msg input_file e)], False)
      | Inr output_file \<Rightarrow>
          (case (if exists fs output_file
                 then (case unlink fs output_file of
                         Inl e \<Rightarrow> Inl e
                       | Inr fs' \<Rightarrow> Inr (fs', [Unlink output_file]))
                 else Inr (fs, [])) of
             Inl e \<Rightarrow> (fs, [Unlink output_file, Stderr (exception_msg input_file e)], False)
           | Inr (fs1, evs) \<Rightarrow>
               (case svg2png fs1 (str_path input_file) (str_path output_file) 200 200 of
                  (fs2, Some e) \<Rightarrow>
                    (fs2,
                     evs @ [Svg2png (str_path input_file) (str_path output_file) 200 200,
                            Stderr (exception_msg input_file e)],
                     False)
                | (fs2, None) \<Rightarrow>
                    (fs2,
                     evs @ [Svg2png (str_path input_file) (str_path output_file) 200 200,
                            Stdout (processed_msg input_file)],
                     True))))"

section \<open>The main program\<close>

text \<open>\<^verbatim>\<open>str(n)\<close> for a count.\<close>

fun str_nat :: "nat \<Rightarrow> string" where
  "str_nat n =
     (if n < 10 then [char_of (48 + n)]
      else str_nat (n div 10) @ [char_of (48 + n mod 10)])"

text \<open>
  The loop of \<^verbatim>\<open>main\<close> over the discovered files, with the file system, the events so
  far and the two counters as its state.
\<close>

fun process_all ::
  "renderer \<Rightarrow> path list \<Rightarrow> node \<times> event list \<times> nat \<times> nat \<Rightarrow> node \<times> event list \<times> nat \<times> nat"
where
  "process_all svg2png [] st = st"
| "process_all svg2png (input_file # rest) (fs, evs, successful, failed) =
     (case process_file svg2png fs input_file of
        (fs', evs', ok) \<Rightarrow>
          if ok then process_all svg2png rest (fs', evs @ evs', successful + 1, failed)
          else process_all svg2png rest (fs', evs @ evs', successful, failed + 1))"

definition summary :: "nat \<Rightarrow> nat \<Rightarrow> nat \<Rightarrow> event list" where
  "summary successful failed n_total =
     [Stdout ([CHR 0x0A] @ replicate 50 (CHR ''='')),
      Stdout ''Processing complete:'',
      Stdout (''  Successful: '' @ str_nat successful),
      Stdout (''  Failed: '' @ str_nat failed),
      Stdout (''  Total: '' @ str_nat n_total),
      Stdout (replicate 50 (CHR ''=''))]"

text \<open>
  \<^verbatim>\<open>main\<close> from the parsed argument on: the file system it leaves, the events, and the
  exit code of the process (\<^verbatim>\<open>sys.exit(c)\<close> ends the run with code \<open>c\<close>; falling off the
  end is code 0).
\<close>

definition main :: "renderer \<Rightarrow> node \<Rightarrow> path \<Rightarrow> node \<times> event list \<times> nat" where
  "main svg2png fs input =
     (if \<not> exists fs input then
        (fs, [Stderr (''Error: Input directory does not exist: '' @ str_path input)], 1)
      else if \<not> is_dir fs input then
        (fs, [Stderr (''Error: Input path is not a directory: '' @ str_path input)], 1)
      else
        let files_to_process = find_files fs input in
        if files_to_process = [] then
          (fs, [Rglob input ''*svg'', Stdout (''No files found in '' @ str_path input)], 0)
        else
          (case process_all svg2png files_to_process
                  (fs,
                   [Rglob input ''*svg'',
                    Stdout (''Found '' @ str_nat (length files_to_process)
                            @ '' file(s) to process'')],
                   0, 0) of
             (fs', evs, successful, failed) \<Rightarrow>
               (fs',
                evs @ summary successful failed (length files_to_process),
                if failed > 0 then 1 else 0)))"

section \<open>Observations on a run\<close>

text \<open>
  The values that \<^verbatim>\<open>process_file\<close> returns in the loop, file by file: the conversion
  of a file succeeded where the value is \<open>True\<close> and raised where it is \<open>False\<close>.
\<close>

fun results :: "renderer \<Rightarrow> node \<Rightarrow> path list \<Rightarrow> bool list" where
  "results svg2png fs [] = []"
| "results svg2png fs (input_file # rest) =
     (case process_file svg2png fs input_file of
        (fs', evs, ok) \<Rightarrow> ok # results svg2png fs' rest)"

fun is_print :: "event \<Rightarrow> bool" where
  "is_print (Stdout s) = True"
| "is_print (Stderr s) = True"
| "is_print ev = False"

fun is_stderr :: "event \<Rightarrow> bool" where
  "is_stderr (Stderr s) = True"
| "is_stderr ev = False"

fun is_stdout :: "event \<Rightarrow> bool" where
  "is_stdout (Stdout s) = True"
| "is_stdout ev = False"

text \<open>
  A printed line reports on a file: the success line of that file, or an exception line
  that starts with the path of that file.
\<close>

definition reports :: "path \<Rightarrow> event \<Rightarrow> bool" where
  "reports p ev =
     (case ev of
        Stdout s \<Rightarrow> s = processed_msg p
      | Stderr s \<Rightarrow>
          (let pre = ''Exception processing '' @ str_path p @ '': ''
           in take (length pre) s = pre)
      | _ \<Rightarrow> False)"

text \<open>
  The lines that a run prints between its first line and the six lines of the summary:
  on a run that reaches the loop, the lines printed by the calls of \<^verbatim>\<open>process_file\<close>.
\<close>

definition file_reports :: "event list \<Rightarrow> event list" where
  "file_reports evs =
     (let printed = filter is_print evs in take (length printed - 7) (drop 1 printed))"

fun is_svg2png :: "event \<Rightarrow> bool" where
  "is_svg2png (Svg2png url write_to w h) = True"
| "is_svg2png ev = False"

text \<open>
  An event is the call of the renderer for a file: its \<open>url\<close> is the file, its
  \<open>write_to\<close> is the output path derived from the file, and the box is 200 by 200.
\<close>

definition renders_to :: "path \<Rightarrow> event \<Rightarrow> bool" where
  "renders_to p ev =
     (case with_suffix p ''.png'' of
        Inl e \<Rightarrow> False
      | Inr out \<Rightarrow> ev = Svg2png (str_path p) (str_path out) 200 200)"

text \<open>
  Lower case for ASCII letters, to say of a suffix that it is \<^verbatim>\<open>.svg\<close> up to the case
  of its letters.
\<close>

definition lower_char :: "char \<Rightarrow> char" where
  "lower_char c =
     (if CHR ''A'' \<le> c \<and> c \<le> CHR ''Z'' then char_of (of_char c + (32::nat)) else c)"

section \<open>A stand-in for the library and a sample tree\<close>

text \<open>
  For concrete runs only: a renderer that reads the file named by \<open>url\<close>, accepts a
  content that starts with an \<^verbatim>\<open>svg\<close> tag and writes a file at \<open>write_to\<close>, and raises
  otherwise. The theorems are about every renderer; this one serves their concrete
  instances.
\<close>

fun split_path :: "string \<Rightarrow> path" where
  "split_path [] = [[]]"
| "split_path (c # cs) =
     (if c = CHR ''/'' then [] # split_path cs
      else (case split_path cs of [] \<Rightarrow> [[c]] | x # xs \<Rightarrow> (c # x) # xs))"

fun write_file :: "node \<Rightarrow> path \<Rightarrow> string \<Rightarrow> node" where
  "write_file n [] c = n"
| "write_file (File c0) (x # xs) c = File c0"
| "write_file (Dir es) [x] c =
     (if x \<in> fst ` set es
      then Dir (map (\<lambda>e. if fst e = x then (x, File c) else e) es)
      else Dir (es @ [(x, File c)]))"
| "write_file (Dir es) (x # y # ys) c =
     Dir (map (\<lambda>e. if fst e = x then (fst e, write_file (snd e) (y # ys) c) else e) es)"

definition sample_svg2png :: renderer where
  "sample_svg2png fs url write_to w h =
     (case lookup fs (split_path url) of
        None \<Rightarrow> (fs, Some (FileNotFoundError (split_path url)))
      | Some (Dir es) \<Rightarrow> (fs, Some (IsADirectoryError (split_path url)))
      | Some (File c) \<Rightarrow>
          if take 4 c = ''<svg'' then (write_file fs (split_path write_to) ''PNG'', None)
          else (fs, Some (LibraryError ''no element found'')))"

definition sample_tree :: node where
  "sample_tree =
     Dir [(''d'',
           Dir [(''b.svg'', File ''<svg/>''),
                (''a.svg'', File ''<svg/>''),
                (''a.png'', File ''old''),
                (''c.SVG'', File ''<svg/>''),
                (''notes.txt'', File ''hello''),
                (''sub'', Dir [(''bad.svg'', File ''broken'')])])]"

text \<open>The sample tree with the entries of its directories listed in another order.\<close>

definition sample_tree_relisted :: node where
  "sample_tree_relisted =
     Dir [(''d'',
           Dir [(''sub'', Dir [(''bad.svg'', File ''broken'')]),
                (''notes.txt'', File ''hello''),
                (''a.png'', File ''old''),
                (''c.SVG'', File ''<svg/>''),
                (''a.svg'', File ''<svg/>''),
                (''b.svg'', File ''<svg/>'')])]"

text \<open>A tree in which every discovered path is a file that the stand-in renderer accepts.\<close>

definition sample_svg_tree :: node where
  "sample_svg_tree =
     Dir [(''e'',
           Dir [(''b.svg'', File ''<svg/>''),
                (''a.png'', File ''old''),
                (''readme.txt'', File ''hello''),
                (''sub'', Dir [(''c.svg'', File ''<svg></svg>'')]),
                (''a.svg'', File ''<svg/>'')])]"

text \<open>
  Two trees with entries that are no SVG files and whose names end in the letters
  \<^verbatim>\<open>svg\<close>: a regular file with no suffix at all, and a directory.
\<close>

definition stray_tree :: node where
  "stray_tree =
     Dir [(''d'',
           Dir [(''a.svg'', File ''<svg/>''),
                (''notsvg'', File ''plain text''),
                (''svg'', Dir [(''readme.txt'', File ''hello'')])])]"

definition no_svg_tree :: node where
  "no_svg_tree =
     Dir [(''d'',
           Dir [(''notes.txt'', File ''hello''),
                (''notsvg'', File ''plain text'')])]"


text \<open>
  A tree whose one SVG file lies in a directory named \<^verbatim>\<open>svg\<close>, and a tree with two
  files of SVG content whose names differ only in a suffix that ends in \<^verbatim>\<open>svg\<close>.
\<close>

definition svg_dir_tree :: node where
  "svg_dir_tree =
     Dir [(''d'',
           Dir [(''svg'', Dir [(''a.svg'', File ''<svg/>'')])])]"

definition clash_tree :: node where
  "clash_tree =
     Dir [(''d'',
           Dir [(''a.svg'', File ''<svg/>''),
                (''a.xsvg'', File ''<svg/>'')])]"

section \<open>Discovery: what is found\<close>

lemma fnmatch_literal_svg: "fnmatch s ''svg'' \<longleftrightarrow> s = ''svg''"
proof (cases s)
  case Nil then show ?thesis by simp
next
  case (Cons a s1)
  show ?thesis
  proof (cases s1)
    case Nil with Cons show ?thesis by simp
  next
    case (Cons b s2)
    note c2 = this
    show ?thesis
    proof (cases s2)
      case Nil with c2 \<open>s = a # s1\<close> show ?thesis by simp
    next
      case (Cons c s3)
      with c2 \<open>s = a # s1\<close> show ?thesis by (cases s3) auto
    qed
  qed
qed

lemma fnmatch_star_svg: "fnmatch s ''*svg'' \<longleftrightarrow> (\<exists>pre. s = pre @ ''svg'')"
proof (induction s)
  case Nil
  show ?case by simp
next
  case (Cons c cs)
  have "fnmatch (c # cs) ''*svg'' \<longleftrightarrow> fnmatch (c # cs) ''svg'' \<or> fnmatch cs ''*svg''"
    by simp
  also have "\<dots> \<longleftrightarrow> c # cs = ''svg'' \<or> (\<exists>pre. cs = pre @ ''svg'')"
    using Cons.IH fnmatch_literal_svg by blast
  also have "\<dots> \<longleftrightarrow> (\<exists>pre. c # cs = pre @ ''svg'')"
  proof
    assume "c # cs = ''svg'' \<or> (\<exists>pre. cs = pre @ ''svg'')"
    then show "\<exists>pre. c # cs = pre @ ''svg''"
    proof
      assume "c # cs = ''svg''" then have "c # cs = [] @ ''svg''" by simp
      then show ?thesis by blast
    next
      assume "\<exists>pre. cs = pre @ ''svg''"
      then obtain pre where "cs = pre @ ''svg''" by blast
      then have "c # cs = (c # pre) @ ''svg''" by simp
      then show ?thesis by blast
    qed
  next
    assume "\<exists>pre. c # cs = pre @ ''svg''"
    then obtain pre where h: "c # cs = pre @ ''svg''" by blast
    show "c # cs = ''svg'' \<or> (\<exists>pre. cs = pre @ ''svg'')"
    proof (cases pre)
      case Nil with h show ?thesis by simp
    next
      case (Cons a pre') with h have "cs = pre' @ ''svg''" by simp
      then show ?thesis by blast
    qed
  qed
  finally show ?case .
qed

lemma rglob_node_shape:
  "q \<in> set (rglob_node pat p n) \<Longrightarrow> \<exists>rel. rel \<noteq> [] \<and> q = p @ rel \<and> fnmatch (last rel) pat"
proof (induction pat p n arbitrary: q rule: rglob_node.induct)
  case (1 pat p c)
  then show ?case by simp
next
  case (2 pat p es)
  from "2.prems" consider
    (here) e where "e \<in> set es" "fnmatch (fst e) pat" "q = p @ [fst e]"
    | (below) e where "e \<in> set es" "q \<in> set (rglob_node pat (p @ [fst e]) (snd e))"
    by auto
  then show ?case
  proof cases
    case here
    then have "[fst e] \<noteq> [] \<and> q = p @ [fst e] \<and> fnmatch (last [fst e]) pat" by simp
    then show ?thesis by blast
  next
    case below
    from "2.IH"[OF below] obtain rel where
      r: "rel \<noteq> []" "q = (p @ [fst e]) @ rel" "fnmatch (last rel) pat" by blast
    then have "fst e # rel \<noteq> [] \<and> q = p @ (fst e # rel) \<and> fnmatch (last (fst e # rel)) pat"
      by simp
    then show ?thesis by blast
  qed
qed

lemma set_find_files: "set (find_files fs d) = set (rglob fs d ''*svg'')"
  by (simp add: find_files_def)

lemma sorted_find_files: "sorted (find_files fs d)"
  by (simp add: find_files_def)

lemma find_files_shape:
  assumes "q \<in> set (find_files fs d)"
  shows "\<exists>rel pre. rel \<noteq> [] \<and> q = d @ rel \<and> name q = pre @ ''svg''"
proof -
  from assms obtain n where "q \<in> set (rglob_node ''*svg'' d n)"
    by (auto simp: find_files_def rglob_def split: option.splits)
  from rglob_node_shape[OF this] obtain rel where
    r: "rel \<noteq> []" "q = d @ rel" "fnmatch (last rel) ''*svg''" by blast
  then have "name q = last rel" by (simp add: name_def)
  with r fnmatch_star_svg show ?thesis by metis
qed

section \<open>Paths: suffix and stem\<close>

lemma rfind_from_absent: "c \<notin> set s \<Longrightarrow> rfind_from c s i r = r"
  by (induction s arbitrary: i r) auto

lemma rfind_from_last:
  "c \<notin> set ys \<Longrightarrow> rfind_from c (xs @ c # ys) i r = i + int (length xs)"
  by (induction xs arbitrary: i r) (auto simp: rfind_from_absent)

lemma rfind_last: "c \<notin> set ys \<Longrightarrow> rfind (xs @ c # ys) c = int (length xs)"
  by (simp add: rfind_def rfind_from_last)

lemma rfind_absent: "c \<notin> set s \<Longrightarrow> rfind s c = - 1"
  by (simp add: rfind_def rfind_from_absent)

lemma rfind_range: "- 1 \<le> rfind s c \<and> rfind s c < int (length s)"
proof (cases "c \<in> set s")
  case True
  then obtain xs ys where "s = xs @ c # ys" "c \<notin> set ys" by (meson split_list_last)
  then show ?thesis by (simp add: rfind_last)
next
  case False
  then show ?thesis by (simp add: rfind_absent)
qed

lemma name_split: "name p = stem p @ path_suffix p"
  by (simp add: stem_def path_suffix_def Let_def)

lemma stem_nonempty: "name p \<noteq> [] \<Longrightarrow> stem p \<noteq> []"
  by (auto simp: stem_def Let_def)

lemma take_stem: "take (length (name p) - length (path_suffix p)) (name p) = stem p"
  using rfind_range[of "name p" "CHR ''.''"]
  by (auto simp: stem_def path_suffix_def Let_def)

lemma with_suffix_png:
  assumes "name p \<noteq> []"
  shows "with_suffix p ''.png'' = Inr (butlast p @ [stem p @ ''.png''])"
proof (cases "path_suffix p = []")
  case True
  then have "stem p = name p" using name_split[of p] by simp
  with True assms show ?thesis by (simp add: with_suffix_def Let_def)
next
  case False
  with assms show ?thesis by (simp add: with_suffix_def Let_def take_stem)
qed

lemma name_snoc: "name (xs @ [nm]) = nm"
  by (simp add: name_def)

lemma stem_png: "st \<noteq> [] \<Longrightarrow> stem (xs @ [st @ ''.png'']) = st"
  using rfind_last[of "CHR ''.''" "''png''" st]
  by (simp add: stem_def name_snoc Let_def)

lemma path_suffix_png: "st \<noteq> [] \<Longrightarrow> path_suffix (xs @ [st @ ''.png'']) = ''.png''"
  using rfind_last[of "CHR ''.''" "''png''" st]
  by (simp add: path_suffix_def name_snoc Let_def)

section \<open>The file system: deletion\<close>

lemma map_of_filter_fst: "map_of (filter (\<lambda>e. fst e \<noteq> x) es) x = None"
  by (induction es) auto

lemma map_of_filter_other: "y \<noteq> x \<Longrightarrow> map_of (filter (\<lambda>e. fst e \<noteq> x) es) y = map_of es y"
  by (induction es) auto

lemma map_of_map_at:
  "map_of (map (\<lambda>e. if fst e = x then (fst e, g (snd e)) else e) es) y =
     (if y = x then map_option g (map_of es x) else map_of es y)"
  by (induction es) auto

lemma lookup_remove_entry_same: "p \<noteq> [] \<Longrightarrow> lookup (remove_entry fs p) p = None"
proof (induction fs p rule: remove_entry.induct)
  case (1 n)
  then show ?case by simp
next
  case (2 c x xs)
  then show ?case by simp
next
  case (3 es x)
  then show ?case by (simp add: map_of_filter_fst)
next
  case (4 es x y ys)
  note upd = map_of_map_at[where g = "\<lambda>m. remove_entry m (y # ys)" and x = x and y = x and es = es]
  show ?case
  proof (cases "map_of es x")
    case None
    then show ?thesis using upd by simp
  next
    case (Some m)
    then have "(x, m) \<in> set es" by (rule map_of_SomeD)
    from "4.IH"[OF this] have "lookup (remove_entry m (y # ys)) (y # ys) = None" by simp
    with Some upd show ?thesis by simp
  qed
qed

lemma is_dir_exists: "is_dir fs d \<Longrightarrow> exists fs d"
  by (auto simp: is_dir_def exists_def split: option.splits)

lemma is_file_exists: "is_file fs d \<Longrightarrow> exists fs d"
  by (auto simp: is_file_def exists_def split: option.splits)

lemma unlink_file: "is_file fs p \<Longrightarrow> unlink fs p = Inr (remove_entry fs p)"
  by (auto simp: is_file_def unlink_def split: option.splits node.splits)


section \<open>The loop\<close>

lemma reports_exception_msg: "reports p (Stderr (exception_msg p e))"
  by (simp add: reports_def exception_msg_def)

lemma reports_processed_msg: "reports p (Stdout (processed_msg p))"
  by (simp add: reports_def)

lemma process_file_report:
  assumes "process_file R fs p = (fs', evs, ok)"
  shows "evs \<noteq> [] \<and> filter is_print evs = [last evs] \<and> reports p (last evs)
         \<and> (ok \<longleftrightarrow> is_stdout (last evs)) \<and> (\<not> ok \<longleftrightarrow> is_stderr (last evs))"
  using assms
  by (auto simp: process_file_def reports_exception_msg reports_processed_msg
           split: sum.splits if_splits prod.splits option.splits)

lemma process_all_from:
  "process_all R files (fs, evs, s, f) =
     (case process_all R files (fs, [], 0, 0) of
        (fs', new, s', f') \<Rightarrow> (fs', evs @ new, s + s', f + f'))"
proof (induction files arbitrary: fs evs s f)
  case Nil
  show ?case by simp
next
  case (Cons p ps)
  obtain fs1 evs1 ok where pf: "process_file R fs p = (fs1, evs1, ok)"
    by (cases "process_file R fs p") auto
  obtain fs2 new s2 f2 where rest: "process_all R ps (fs1, [], 0, 0) = (fs2, new, s2, f2)"
    by (cases "process_all R ps (fs1, [], 0, 0)") auto
  show ?case
  proof (cases ok)
    case True
    have a: "process_all R (p # ps) (fs, evs, s, f) = (fs2, (evs @ evs1) @ new, (s + 1) + s2, f + f2)"
      using pf True Cons.IH[of fs1 "evs @ evs1" "s + 1" f] rest by simp
    have b: "process_all R (p # ps) (fs, [], 0, 0) = (fs2, evs1 @ new, 1 + s2, f2)"
      using pf True Cons.IH[of fs1 "[] @ evs1" "0 + 1" 0] rest by simp
    show ?thesis unfolding a b by simp
  next
    case False
    have a: "process_all R (p # ps) (fs, evs, s, f) = (fs2, (evs @ evs1) @ new, s + s2, (f + 1) + f2)"
      using pf False Cons.IH[of fs1 "evs @ evs1" s "f + 1"] rest by simp
    have b: "process_all R (p # ps) (fs, [], 0, 0) = (fs2, evs1 @ new, s2, 1 + f2)"
      using pf False Cons.IH[of fs1 "[] @ evs1" 0 "0 + 1"] rest by simp
    show ?thesis unfolding a b by simp
  qed
qed

lemma process_all_Cons:
  assumes "process_file R fs p = (fs1, evs1, ok)"
      and "process_all R ps (fs1, [], 0, 0) = (fs2, new, s2, f2)"
  shows "process_all R (p # ps) (fs, [], 0, 0) =
           (fs2, evs1 @ new, (if ok then 1 else 0) + s2, (if ok then 0 else 1) + f2)"
proof -
  have "process_all R (p # ps) (fs, [], 0, 0) =
          (if ok then process_all R ps (fs1, evs1, 1, 0) else process_all R ps (fs1, evs1, 0, 1))"
    using assms(1) by simp
  also have "\<dots> = (fs2, evs1 @ new, (if ok then 1 else 0) + s2, (if ok then 0 else 1) + f2)"
    using assms(2) process_all_from[of R ps fs1 evs1 1 0] process_all_from[of R ps fs1 evs1 0 1]
    by simp
  finally show ?thesis .
qed

lemma process_all_results:
  assumes "process_all R files (fs, [], 0, 0) = (fs', new, s, f)"
  shows "s = length (filter (\<lambda>b. b) (results R fs files))
       \<and> f = length (filter Not (results R fs files))
       \<and> list_all2 reports files (filter is_print new)
       \<and> map is_stdout (filter is_print new) = results R fs files"
  using assms
proof (induction files arbitrary: fs fs' new s f)
  case Nil
  then show ?case by simp
next
  case (Cons p ps)
  obtain fs1 evs1 ok where pf: "process_file R fs p = (fs1, evs1, ok)"
    by (cases "process_file R fs p") auto
  obtain fs2 new2 s2 f2 where rest: "process_all R ps (fs1, [], 0, 0) = (fs2, new2, s2, f2)"
    by (cases "process_all R ps (fs1, [], 0, 0)") auto
  have eqs: "new = evs1 @ new2" "s = (if ok then 1 else 0) + s2" "f = (if ok then 0 else 1) + f2"
    using Cons.prems[unfolded process_all_Cons[OF pf rest]] by simp_all
  have res: "results R fs (p # ps) = ok # results R fs1 ps"
    using pf by simp
  note rep = process_file_report[OF pf]
  note ih = Cons.IH[OF rest]
  have pr: "filter is_print new = last evs1 # filter is_print new2"
    using eqs(1) rep by simp
  have "s = length (filter (\<lambda>b. b) (results R fs (p # ps)))"
    unfolding res using eqs(2) ih by simp
  moreover have "f = length (filter Not (results R fs (p # ps)))"
    unfolding res using eqs(3) ih by simp
  moreover have "list_all2 reports (p # ps) (filter is_print new)"
    unfolding pr using rep ih by simp
  moreover have "map is_stdout (filter is_print new) = results R fs (p # ps)"
    unfolding res pr using rep ih by simp
  ultimately show ?case by blast
qed

section \<open>The main program: its four ways out\<close>


lemma main_missing:
  "\<not> exists fs input \<Longrightarrow>
     main R fs input =
       (fs, [Stderr (''Error: Input directory does not exist: '' @ str_path input)], 1)"
  by (simp add: main_def)

lemma main_not_directory:
  "exists fs input \<Longrightarrow> \<not> is_dir fs input \<Longrightarrow>
     main R fs input =
       (fs, [Stderr (''Error: Input path is not a directory: '' @ str_path input)], 1)"
  by (simp add: main_def)

lemma main_nothing_found:
  "is_dir fs input \<Longrightarrow> find_files fs input = [] \<Longrightarrow>
     main R fs input =
       (fs, [Rglob input ''*svg'', Stdout (''No files found in '' @ str_path input)], 0)"
  by (simp add: main_def is_dir_exists)

lemma main_loop:
  assumes "is_dir fs input" and "find_files fs input \<noteq> []"
      and "process_all R (find_files fs input) (fs, [], 0, 0) = (fs', new, s, f)"
  shows "main R fs input =
           (fs',
            [Rglob input ''*svg'',
             Stdout (''Found '' @ str_nat (length (find_files fs input)) @ '' file(s) to process'')]
            @ new @ summary s f (length (find_files fs input)),
            if f > 0 then 1 else 0)"
proof -
  let ?hd = "[Rglob input ''*svg'',
             Stdout (''Found '' @ str_nat (length (find_files fs input)) @ '' file(s) to process'')]"
  have "process_all R (find_files fs input) (fs, ?hd, 0, 0) = (fs', ?hd @ new, s, f)"
    using process_all_from[of R "find_files fs input" fs ?hd 0 0] assms(3) by simp
  then show ?thesis
    using assms(1,2) by (simp add: main_def is_dir_exists Let_def)
qed

section \<open>The claims\<close>



lemma failed_positive_iff: "0 < length (filter Not bs) \<longleftrightarrow> False \<in> set bs"
  by (induction bs) auto

lemma main_exit_code_dir:
  assumes "is_dir fs input"
  shows "snd (snd (main R fs input)) =
           (if False \<in> set (results R fs (find_files fs input)) then 1 else 0)"
proof (cases "find_files fs input = []")
  case True
  then show ?thesis using main_nothing_found[OF assms True, of R] by simp
next
  case False
  obtain fs' new s f where run:
    "process_all R (find_files fs input) (fs, [], 0, 0) = (fs', new, s, f)"
    by (cases "process_all R (find_files fs input) (fs, [], 0, 0)") auto
  have "f = length (filter Not (results R fs (find_files fs input)))"
    using process_all_results[OF run] by simp
  then have "0 < f \<longleftrightarrow> False \<in> set (results R fs (find_files fs input))"
    using failed_positive_iff[of "results R fs (find_files fs input)"] by simp
  then show ?thesis using main_loop[OF assms False run] by simp
qed

text \<open>
  C2. The exit code. A missing path and a path that is no directory end the run with
  code 1 after one line on standard error, with no traversal and the file system
  untouched. On a directory the code is 1 when some conversion returned \<open>False\<close> and 0
  otherwise, which includes the run that discovers nothing.
\<close>

theorem exit_code:
  "(\<not> exists fs input \<longrightarrow>
      main R fs input =
        (fs, [Stderr (''Error: Input directory does not exist: '' @ str_path input)], 1))
   \<and> (exists fs input \<and> \<not> is_dir fs input \<longrightarrow>
      main R fs input =
        (fs, [Stderr (''Error: Input path is not a directory: '' @ str_path input)], 1))
   \<and> (is_dir fs input \<longrightarrow>
      snd (snd (main R fs input)) =
        (if False \<in> set (results R fs (find_files fs input)) then 1 else 0))"
  using main_missing[of fs input R] main_not_directory[of fs input R]
        main_exit_code_dir[of fs input R]
  by blast

text \<open>
  A missing path, a regular file, two directories with a failing conversion, a directory
  whose only file converts, and a directory where nothing is discovered.
\<close>

theorem exit_code_witness:
  "\<not> exists sample_tree [''nowhere'']
   \<and> main sample_svg2png sample_tree [''nowhere''] =
       (sample_tree, [Stderr ''Error: Input directory does not exist: nowhere''], 1)
   \<and> exists sample_tree [''d'', ''notes.txt''] \<and> \<not> is_dir sample_tree [''d'', ''notes.txt'']
   \<and> main sample_svg2png sample_tree [''d'', ''notes.txt''] =
       (sample_tree, [Stderr ''Error: Input path is not a directory: d/notes.txt''], 1)
   \<and> is_dir sample_tree [''d''] \<and> snd (snd (main sample_svg2png sample_tree [''d''])) = 1
   \<and> is_dir sample_tree [''d'', ''sub''] \<and> snd (snd (main sample_svg2png sample_tree [''d'', ''sub''])) = 1
   \<and> is_dir (Dir [(''e'', Dir [(''a.svg'', File ''<svg/>'')])]) [''e'']
   \<and> snd (snd (main sample_svg2png (Dir [(''e'', Dir [(''a.svg'', File ''<svg/>'')])]) [''e''])) = 0
   \<and> is_dir (Dir [(''e'', Dir [(''a.txt'', File ''<svg/>'')])]) [''e'']
   \<and> snd (snd (main sample_svg2png (Dir [(''e'', Dir [(''a.txt'', File ''<svg/>'')])]) [''e''])) = 0"
proof -
  have a: "\<not> exists sample_tree [''nowhere'']" by code_simp
  have b: "exists sample_tree [''d'', ''notes.txt''] \<and> \<not> is_dir sample_tree [''d'', ''notes.txt'']"
    by code_simp
  have c: "is_dir sample_tree [''d'']" by code_simp
  have c': "False \<in> set (results sample_svg2png sample_tree (find_files sample_tree [''d'']))"
    by code_simp
  have d: "is_dir sample_tree [''d'', ''sub'']" by code_simp
  have d': "False \<in> set (results sample_svg2png sample_tree (find_files sample_tree [''d'', ''sub'']))"
    by code_simp
  let ?t = "Dir [(''e'', Dir [(''a.svg'', File ''<svg/>'')])]"
  have e: "is_dir ?t [''e'']" by code_simp
  have e': "False \<notin> set (results sample_svg2png ?t (find_files ?t [''e'']))"
    by code_simp
  let ?u = "Dir [(''e'', Dir [(''a.txt'', File ''<svg/>'')])]"
  have f: "is_dir ?u [''e'']" by code_simp
  have f': "False \<notin> set (results sample_svg2png ?u (find_files ?u [''e'']))"
    by code_simp
  have s1: "str_path [''nowhere''] = ''nowhere''" by code_simp
  have s2: "str_path [''d'', ''notes.txt''] = ''d/notes.txt''" by code_simp
  show ?thesis
    using exit_code[of sample_tree "[''nowhere'']" sample_svg2png]
          exit_code[of sample_tree "[''d'', ''notes.txt'']" sample_svg2png]
          exit_code[of sample_tree "[''d'']" sample_svg2png]
          exit_code[of sample_tree "[''d'', ''sub'']" sample_svg2png]
          exit_code[of ?t "[''e'']" sample_svg2png]
          exit_code[of ?u "[''e'']" sample_svg2png]
          a b c c' d d' e e' f f' s1 s2
    by simp
qed

lemma process_file_False:
  assumes "process_file R st p = (st', evs', False)"
  shows "evs' \<noteq> [] \<and> (\<exists>e. last evs' = Stderr (exception_msg p e))"
  using assms
  by (auto simp: process_file_def split: sum.splits if_splits prod.splits option.splits)


lemma summary_prints: "filter is_print (summary s f n) = summary s f n"
  by (simp add: summary_def)

lemma length_summary: "length (summary s f n) = 6"
  by (simp add: summary_def)

lemma file_reports_main:
  assumes "is_dir fs input"
      and "process_all R (find_files fs input) (fs, [], 0, 0) = (fs', new, s, f)"
  shows "file_reports (fst (snd (main R fs input))) = filter is_print new"
proof (cases "find_files fs input = []")
  case True
  with assms(2) have "new = []" by simp
  then show ?thesis
    using main_nothing_found[OF assms(1) True, of R] by (simp add: file_reports_def)
next
  case False
  show ?thesis
    using main_loop[OF assms(1) False assms(2)]
    by (simp add: file_reports_def summary_prints length_summary Let_def)
qed












lemma find_files_not_directory: "\<not> is_dir fs input \<Longrightarrow> find_files fs input = []"
  by (auto simp: find_files_def rglob_def is_dir_def split: option.splits node.splits)

lemma main_file_reports:
  "list_all2 reports (find_files fs input) (file_reports (fst (snd (main R fs input))))"
proof (cases "is_dir fs input")
  case True
  obtain fs' new s f where run:
    "process_all R (find_files fs input) (fs, [], 0, 0) = (fs', new, s, f)"
    by (cases "process_all R (find_files fs input) (fs, [], 0, 0)") auto
  show ?thesis
    unfolding file_reports_main[OF True run] using process_all_results[OF run] by simp
next
  case False
  then have "find_files fs input = []" by (rule find_files_not_directory)
  moreover have "file_reports (fst (snd (main R fs input))) = []"
    using False by (simp add: main_def file_reports_def)
  ultimately show ?thesis by simp
qed

lemma find_files_permuted:
  assumes "mset (rglob fs1 input ''*svg'') = mset (rglob fs2 input ''*svg'')"
  shows "find_files fs1 input = find_files fs2 input"
proof -
  have "mset (sort (rglob fs2 input ''*svg'')) = mset (rglob fs1 input ''*svg'')"
    using assms by simp
  then have "sort (rglob fs1 input ''*svg'') = sort (rglob fs2 input ''*svg'')"
    by (rule properties_for_sort) simp
  then show ?thesis by (simp add: find_files_def)
qed

text \<open>
  C6. The order of processing does not depend on the order of listing. When two
  traversals list the same paths, in whatever order, \<^verbatim>\<open>find_files\<close> returns the same
  list for both, sorted in the order of paths, and in both runs the lines printed for
  the files follow that list, one line for each file.
\<close>

theorem processing_order_is_sorted:
  assumes "mset (rglob fs1 input ''*svg'') = mset (rglob fs2 input ''*svg'')"
  shows "find_files fs1 input = find_files fs2 input
       \<and> sorted (find_files fs1 input)
       \<and> list_all2 reports (find_files fs1 input)
            (file_reports (fst (snd (main R1 fs1 input))))
       \<and> list_all2 reports (find_files fs1 input)
            (file_reports (fst (snd (main R2 fs2 input))))"
proof -
  have eq: "find_files fs1 input = find_files fs2 input"
    using assms by (rule find_files_permuted)
  have "list_all2 reports (find_files fs2 input) (file_reports (fst (snd (main R2 fs2 input))))"
    by (rule main_file_reports)
  with eq main_file_reports[of fs1 input R1] sorted_find_files[of fs1 input]
  show ?thesis by simp
qed

text \<open>
  The sample tree and its relisted copy are traversed in different orders and processed
  in the same one.
\<close>

theorem processing_order_is_sorted_witness:
  "rglob sample_tree [''d''] ''*svg''
     = [[''d'', ''b.svg''], [''d'', ''a.svg''], [''d'', ''sub'', ''bad.svg'']]
   \<and> rglob sample_tree_relisted [''d''] ''*svg''
     = [[''d'', ''a.svg''], [''d'', ''b.svg''], [''d'', ''sub'', ''bad.svg'']]
   \<and> mset (rglob sample_tree [''d''] ''*svg'') = mset (rglob sample_tree_relisted [''d''] ''*svg'')
   \<and> find_files sample_tree [''d''] = find_files sample_tree_relisted [''d'']
   \<and> find_files sample_tree [''d'']
       = [[''d'', ''a.svg''], [''d'', ''b.svg''], [''d'', ''sub'', ''bad.svg'']]
   \<and> list_all2 reports (find_files sample_tree [''d''])
        (file_reports (fst (snd (main sample_svg2png sample_tree_relisted [''d'']))))"
proof -
  have l1: "rglob sample_tree [''d''] ''*svg''
     = [[''d'', ''b.svg''], [''d'', ''a.svg''], [''d'', ''sub'', ''bad.svg'']]"
    by code_simp
  have l2: "rglob sample_tree_relisted [''d''] ''*svg''
     = [[''d'', ''a.svg''], [''d'', ''b.svg''], [''d'', ''sub'', ''bad.svg'']]"
    by code_simp
  have m: "mset (rglob sample_tree [''d''] ''*svg'')
             = mset (rglob sample_tree_relisted [''d''] ''*svg'')"
    unfolding l1 l2 by simp
  have f: "find_files sample_tree [''d'']
       = [[''d'', ''a.svg''], [''d'', ''b.svg''], [''d'', ''sub'', ''bad.svg'']]"
    by code_simp
  note inst = processing_order_is_sorted[OF m, of sample_svg2png sample_svg2png]
  from inst have a: "find_files sample_tree [''d''] = find_files sample_tree_relisted [''d'']"
    by (rule conjunct1)
  from inst have b: "list_all2 reports (find_files sample_tree [''d''])
        (file_reports (fst (snd (main sample_svg2png sample_tree_relisted [''d'']))))"
    by blast
  from l1 l2 m a f b show ?thesis by blast
qed

lemma lower_char_dot: "lower_char c = CHR ''.'' \<Longrightarrow> c = CHR ''.''"
proof (cases "CHR ''A'' \<le> c \<and> c \<le> CHR ''Z''")
  case False
  assume "lower_char c = CHR ''.''"
  with False show ?thesis by (auto simp: lower_char_def)
next
  case True
  assume a: "lower_char c = CHR ''.''"
  from True have r: "65 \<le> (of_char c :: nat) \<and> (of_char c :: nat) \<le> 90"
    by (simp add: less_eq_char_def)
  from a True have "char_of (of_char c + (32::nat)) = CHR ''.''" by (simp add: lower_char_def)
  then have "(of_char (char_of (of_char c + (32::nat))) :: nat) = of_char (CHR ''.'')" by simp
  then have "(of_char c + 32) mod 256 = (46::nat)" by (simp add: of_char_of)
  with r show ?thesis by auto
qed

lemma join_parts_ends: "p \<noteq> [] \<Longrightarrow> \<exists>pre. join_parts p = pre @ last p"
proof (induction p rule: join_parts.induct)
  case 1
  then show ?case by simp
next
  case (2 x)
  have "join_parts [x] = [] @ last [x]" by simp
  then show ?case by blast
next
  case (3 x y ys)
  then obtain pre where "join_parts (y # ys) = pre @ last (y # ys)" by auto
  then have "join_parts (x # y # ys) = (x @ ''/'' @ pre) @ last (x # y # ys)" by simp
  then show ?case by blast
qed

lemma str_path_ends: "p \<noteq> [] \<Longrightarrow> \<exists>pre. str_path p = pre @ name p"
  using join_parts_ends[of p] by (simp add: str_path_def name_def)

lemma ends_svg_unique:
  assumes "pre @ t = pre' @ ''svg''" and "length t = 4" and "t = a # r"
  shows "r = ''svg''"
proof -
  have "drop (length (pre @ t) - 3) (pre @ t) = drop (length (pre' @ ''svg'') - 3) (pre' @ ''svg'')"
    using assms(1) by simp
  then show ?thesis using assms(2,3) by simp
qed

lemma other_case_not_matched:
  assumes "map lower_char (path_suffix p) = ''.svg''" and "path_suffix p \<noteq> ''.svg''"
  shows "\<not> (\<exists>pre. name p = pre @ ''svg'')"
proof
  assume "\<exists>pre. name p = pre @ ''svg''"
  then obtain pre where nm: "name p = pre @ ''svg''" by blast
  from assms(1) have len: "length (path_suffix p) = 4"
    using length_map[of lower_char "path_suffix p"] by simp
  then obtain a r where t: "path_suffix p = a # r" by (cases "path_suffix p") auto
  have "stem p @ path_suffix p = pre @ ''svg''" using nm name_split[of p] by simp
  from ends_svg_unique[OF this len t] have r: "r = ''svg''" .
  from assms(1) t have "lower_char a = CHR ''.''" by simp
  then have "a = CHR ''.''" by (rule lower_char_dot)
  with t r assms(2) show False by simp
qed

lemma process_file_urls:
  assumes "process_file R st p = (st', evs, ok)" and "Svg2png url write_to w h \<in> set evs"
  shows "url = str_path p"
  using assms
  by (auto simp: process_file_def split: sum.splits if_splits prod.splits option.splits)

lemma process_all_urls:
  assumes "process_all R files (fs, [], 0, 0) = (fs', new, s, f)"
      and "Svg2png url write_to w h \<in> set new"
  shows "url \<in> str_path ` set files"
  using assms
proof (induction files arbitrary: fs fs' new s f)
  case Nil
  then show ?case by simp
next
  case (Cons p ps)
  obtain fs1 evs1 ok where pf: "process_file R fs p = (fs1, evs1, ok)"
    by (cases "process_file R fs p") auto
  obtain fs2 new2 s2 f2 where rest: "process_all R ps (fs1, [], 0, 0) = (fs2, new2, s2, f2)"
    by (cases "process_all R ps (fs1, [], 0, 0)") auto
  have "new = evs1 @ new2"
    using Cons.prems(1)[unfolded process_all_Cons[OF pf rest]] by simp
  with Cons.prems(2) consider "Svg2png url write_to w h \<in> set evs1"
    | "Svg2png url write_to w h \<in> set new2" by auto
  then show ?case
  proof cases
    case 1
    from process_file_urls[OF pf 1] show ?thesis by simp
  next
    case 2
    from Cons.IH[OF rest 2] show ?thesis by auto
  qed
qed

lemma main_urls:
  assumes "Svg2png url write_to w h \<in> set (fst (snd (main R fs input)))"
  shows "url \<in> str_path ` set (find_files fs input)"
proof (cases "is_dir fs input \<and> find_files fs input \<noteq> []")
  case True
  obtain fs' new s f where run:
    "process_all R (find_files fs input) (fs, [], 0, 0) = (fs', new, s, f)"
    by (cases "process_all R (find_files fs input) (fs, [], 0, 0)") auto
  from True main_loop[OF _ _ run] assms have "Svg2png url write_to w h \<in> set new"
    by (auto simp: summary_def)
  from process_all_urls[OF run this] show ?thesis .
next
  case False
  with assms show ?thesis
    by (auto simp: main_def is_dir_exists Let_def split: if_splits)
qed

text \<open>
  C8. A path whose suffix is \<^verbatim>\<open>.svg\<close> up to the case of its letters, and not \<^verbatim>\<open>.svg\<close>
  itself, is skipped: it is not in the list of \<^verbatim>\<open>find_files\<close>, whose length is the
  count that the run prints, and the renderer is never called on it.
\<close>

theorem other_case_extension_is_skipped:
  assumes "map lower_char (path_suffix p) = ''.svg''" and "path_suffix p \<noteq> ''.svg''"
  shows "p \<notin> set (find_files fs input)
       \<and> (\<forall>write_to w h. Svg2png (str_path p) write_to w h \<notin> set (fst (snd (main R fs input))))"
proof -
  note no = other_case_not_matched[OF assms]
  have a: "p \<notin> set (find_files fs input)"
    using find_files_shape[of p fs input] no by blast
  have pne: "p \<noteq> []" using assms(1) by (auto simp: path_suffix_def name_def rfind_def)
  have b: "Svg2png (str_path p) write_to w h \<notin> set (fst (snd (main R fs input)))"
    for write_to w h
  proof
    assume "Svg2png (str_path p) write_to w h \<in> set (fst (snd (main R fs input)))"
    from main_urls[OF this] obtain q where
      q: "q \<in> set (find_files fs input)" "str_path p = str_path q" by auto
    from find_files_shape[OF q(1)] obtain pre where
      qn: "q \<noteq> []" "name q = pre @ ''svg''" by auto
    from str_path_ends[OF qn(1)] qn(2) obtain pre1 where
      e1: "str_path q = pre1 @ ''svg''" by (metis append.assoc)
    from str_path_ends[OF pne] obtain pre2 where
      e2: "str_path p = pre2 @ stem p @ path_suffix p" using name_split[of p] by auto
    from assms(1) have len: "length (path_suffix p) = 4"
      using length_map[of lower_char "path_suffix p"] by simp
    then obtain c r where t: "path_suffix p = c # r" by (cases "path_suffix p") auto
    have "(pre2 @ stem p) @ path_suffix p = pre1 @ ''svg''" using e1 e2 q(2) by simp
    from ends_svg_unique[OF this len t] have r: "r = ''svg''" .
    from assms(1) t have "lower_char c = CHR ''.''" by simp
    then have "c = CHR ''.''" by (rule lower_char_dot)
    with t r assms(2) show False by simp
  qed
  from a b show ?thesis by blast
qed

text \<open>The file \<^verbatim>\<open>d/c.SVG\<close> of the sample tree.\<close>

theorem other_case_extension_is_skipped_witness:
  "map lower_char (path_suffix [''d'', ''c.SVG'']) = ''.svg''
   \<and> path_suffix [''d'', ''c.SVG''] \<noteq> ''.svg''
   \<and> is_file sample_tree [''d'', ''c.SVG'']
   \<and> [''d'', ''c.SVG''] \<notin> set (find_files sample_tree [''d''])
   \<and> (\<forall>write_to w h. Svg2png ''d/c.SVG'' write_to w h
         \<notin> set (fst (snd (main sample_svg2png sample_tree [''d'']))))"
proof -
  have a: "map lower_char (path_suffix [''d'', ''c.SVG'']) = ''.svg''" by code_simp
  have b: "path_suffix [''d'', ''c.SVG''] \<noteq> ''.svg''" by code_simp
  have c: "is_file sample_tree [''d'', ''c.SVG'']" by code_simp
  have s: "str_path [''d'', ''c.SVG''] = ''d/c.SVG''" by code_simp
  from other_case_extension_is_skipped[OF a b, of sample_tree "[''d'']" sample_svg2png] a b c
  show ?thesis unfolding s by blast
qed

lemma discovered_name: "p \<in> set (find_files fs input) \<Longrightarrow> name p \<noteq> []"
  using find_files_shape[of p fs input] by auto

lemma process_file_over_old_output:
  assumes "with_suffix input_file ''.png'' = Inr output_file" and "is_file fs output_file"
  shows "process_file R fs input_file =
           (case R (remove_entry fs output_file) (str_path input_file) (str_path output_file)
                   200 200 of
              (fs2, None) \<Rightarrow>
                (fs2,
                 [Unlink output_file,
                  Svg2png (str_path input_file) (str_path output_file) 200 200,
                  Stdout (processed_msg input_file)],
                 True)
            | (fs2, Some e) \<Rightarrow>
                (fs2,
                 [Unlink output_file,
                  Svg2png (str_path input_file) (str_path output_file) 200 200,
                  Stderr (exception_msg input_file e)],
                 False))"
  using assms(1) is_file_exists[OF assms(2)] unlink_file[OF assms(2)]
  by (simp add: process_file_def split: prod.splits option.splits)

lemma process_file_no_old_output:
  assumes "with_suffix input_file ''.png'' = Inr output_file" and "\<not> exists fs output_file"
  shows "process_file R fs input_file =
           (case R fs (str_path input_file) (str_path output_file) 200 200 of
              (fs2, None) \<Rightarrow>
                (fs2,
                 [Svg2png (str_path input_file) (str_path output_file) 200 200,
                  Stdout (processed_msg input_file)],
                 True)
            | (fs2, Some e) \<Rightarrow>
                (fs2,
                 [Svg2png (str_path input_file) (str_path output_file) 200 200,
                  Stderr (exception_msg input_file e)],
                 False))"
  using assms
  by (simp add: process_file_def split: prod.splits option.splits)

lemma with_suffix_nonempty: "with_suffix p sfx = Inr out \<Longrightarrow> out \<noteq> []"
  by (auto simp: with_suffix_def Let_def split: if_splits)




text \<open>
  C10. When a regular file is at the output path and the renderer raises,
  \<^verbatim>\<open>process_file\<close> returns \<open>False\<close> and leaves the file system as the renderer left it:
  nothing is put back. If the failed call did not touch the output path, the file that
  was there before the conversion is there no longer.
\<close>

theorem failed_conversion_leaves_output_deleted:
  assumes "with_suffix input_file ''.png'' = Inr output_file"
      and "is_file fs output_file"
      and "R (remove_entry fs output_file) (str_path input_file) (str_path output_file) 200 200
             = (fs2, Some e)"
  shows "process_file R fs input_file =
           (fs2,
            [Unlink output_file,
             Svg2png (str_path input_file) (str_path output_file) 200 200,
             Stderr (exception_msg input_file e)],
            False)
       \<and> (lookup fs2 output_file = lookup (remove_entry fs output_file) output_file \<longrightarrow>
            exists fs output_file \<and> \<not> exists (fst (process_file R fs input_file)) output_file)"
proof -
  have pf: "process_file R fs input_file =
           (fs2,
            [Unlink output_file,
             Svg2png (str_path input_file) (str_path output_file) 200 200,
             Stderr (exception_msg input_file e)],
            False)"
    using process_file_over_old_output[OF assms(1,2), of R] assms(3) by simp
  have "lookup (remove_entry fs output_file) output_file = None"
    using with_suffix_nonempty[OF assms(1)] by (rule lookup_remove_entry_same)
  then show ?thesis
    using pf is_file_exists[OF assms(2)] by (simp add: exists_def)
qed

text \<open>A file that the stand-in renderer rejects, beside an output of an earlier run.\<close>

theorem failed_conversion_leaves_output_deleted_witness:
  "with_suffix [''d'', ''bad.svg''] ''.png'' = Inr [''d'', ''bad.png'']
   \<and> is_file (Dir [(''d'', Dir [(''bad.svg'', File ''broken''), (''bad.png'', File ''old'')])])
        [''d'', ''bad.png'']
   \<and> process_file sample_svg2png
        (Dir [(''d'', Dir [(''bad.svg'', File ''broken''), (''bad.png'', File ''old'')])])
        [''d'', ''bad.svg'']
       = (Dir [(''d'', Dir [(''bad.svg'', File ''broken'')])],
          [Unlink [''d'', ''bad.png''], Svg2png ''d/bad.svg'' ''d/bad.png'' 200 200,
           Stderr ''Exception processing d/bad.svg: no element found''],
          False)
   \<and> \<not> exists (Dir [(''d'', Dir [(''bad.svg'', File ''broken'')])]) [''d'', ''bad.png'']"
proof -
  let ?t = "Dir [(''d'', Dir [(''bad.svg'', File ''broken''), (''bad.png'', File ''old'')])]"
  let ?t' = "Dir [(''d'', Dir [(''bad.svg'', File ''broken'')])]"
  have w: "with_suffix [''d'', ''bad.svg''] ''.png'' = Inr [''d'', ''bad.png'']" by code_simp
  have f: "is_file ?t [''d'', ''bad.png'']" by code_simp
  have rm: "remove_entry ?t [''d'', ''bad.png''] = ?t'" by code_simp
  have r: "sample_svg2png (remove_entry ?t [''d'', ''bad.png''])
             (str_path [''d'', ''bad.svg'']) (str_path [''d'', ''bad.png'']) 200 200
           = (?t', Some (LibraryError ''no element found''))"
    by code_simp
  have m: "exception_msg [''d'', ''bad.svg''] (LibraryError ''no element found'')
           = ''Exception processing d/bad.svg: no element found''"
    by code_simp
  have s: "str_path [''d'', ''bad.svg''] = ''d/bad.svg''" "str_path [''d'', ''bad.png''] = ''d/bad.png''"
    by code_simp+
  have same: "lookup ?t' [''d'', ''bad.png''] = lookup (remove_entry ?t [''d'', ''bad.png'']) [''d'', ''bad.png'']"
    unfolding rm by simp
  note inst = failed_conversion_leaves_output_deleted[where R = sample_svg2png, OF w f r]
  from inst have pf: "process_file sample_svg2png ?t [''d'', ''bad.svg'']
       = (?t',
          [Unlink [''d'', ''bad.png''], Svg2png ''d/bad.svg'' ''d/bad.png'' 200 200,
           Stderr ''Exception processing d/bad.svg: no element found''],
          False)"
    unfolding m s by (rule conjunct1)
  from inst[THEN conjunct2, rule_format, OF same]
  have "\<not> exists (fst (process_file sample_svg2png ?t [''d'', ''bad.svg''])) [''d'', ''bad.png'']"
    by simp
  then have gone: "\<not> exists ?t' [''d'', ''bad.png'']" unfolding pf by simp
  from w f pf gone show ?thesis by blast
qed

lemma wf_node_lookup: "wf_node fs \<Longrightarrow> lookup fs p = Some n \<Longrightarrow> wf_node n"
proof (induction fs p rule: lookup.induct)
  case (1 n')
  then show ?case by simp
next
  case (2 c x xs)
  then show ?case by simp
next
  case (3 es x xs)
  from "3.prems"(2) obtain m where m: "map_of es x = Some m" "lookup m xs = Some n"
    by (auto split: option.splits)
  then have "(x, m) \<in> set es" by (simp add: map_of_SomeD)
  with "3.prems"(1) have "wf_node m" by auto
  from "3.IH"[OF m(1) this m(2)] show ?case .
qed

lemma rglob_node_below:
  "q \<in> set (rglob_node pat p n) \<Longrightarrow> \<exists>rel. rel \<noteq> [] \<and> q = p @ rel"
  using rglob_node_shape by blast

lemma distinct_children:
  assumes "distinct (map fst es)"
      and "\<And>e. e \<in> set es \<Longrightarrow> distinct (g e)"
      and "\<And>e q. e \<in> set es \<Longrightarrow> q \<in> set (g e) \<Longrightarrow> \<exists>rel. q = (p @ [fst e]) @ rel"
  shows "distinct (concat (map g es))"
  using assms
proof (induction es)
  case Nil
  then show ?case by simp
next
  case (Cons x xs)
  have rest: "distinct (concat (map g xs))"
    using Cons by auto
  have "set (g x) \<inter> set (concat (map g xs)) = {}"
  proof (rule ccontr)
    assume "set (g x) \<inter> set (concat (map g xs)) \<noteq> {}"
    then obtain q e where q: "q \<in> set (g x)" "e \<in> set xs" "q \<in> set (g e)" by auto
    from Cons.prems(3)[of x q] q(1) obtain r1 where r1: "q = (p @ [fst x]) @ r1" by auto
    from Cons.prems(3)[of e q] q(2,3) obtain r2 where r2: "q = (p @ [fst e]) @ r2" by auto
    from r1 r2 have "fst x = fst e" by simp
    moreover from Cons.prems(1) q(2) have "fst x \<noteq> fst e" by auto
    ultimately show False by simp
  qed
  with rest Cons.prems(2)[of x] show ?case by simp
qed

lemma distinct_rglob_node: "wf_node n \<Longrightarrow> distinct (rglob_node pat p n)"
proof (induction pat p n rule: rglob_node.induct)
  case (1 pat p c)
  then show ?case by simp
next
  case (2 pat p es)
  let ?here = "map (\<lambda>e. p @ [fst e]) (filter (\<lambda>e. fnmatch (fst e) pat) es)"
  let ?g = "\<lambda>e. rglob_node pat (p @ [fst e]) (snd e)"
  from "2.prems" have d: "distinct (map fst es)" and ch: "\<And>e. e \<in> set es \<Longrightarrow> wf_node (snd e)"
    by auto
  have "distinct (map fst (filter (\<lambda>e. fnmatch (fst e) pat) es))"
    using d by (rule distinct_map_filter)
  then have "distinct (map (\<lambda>n. p @ [n]) (map fst (filter (\<lambda>e. fnmatch (fst e) pat) es)))"
    by (simp add: distinct_map inj_on_def)
  then have a: "distinct ?here" by (simp add: comp_def)
  have b: "distinct (concat (map ?g es))"
  proof (rule distinct_children[OF d, where p = p])
    fix e assume "e \<in> set es"
    then show "distinct (?g e)" using "2.IH" ch by simp
  next
    fix e q assume "e \<in> set es" "q \<in> set (?g e)"
    then show "\<exists>rel. q = (p @ [fst e]) @ rel" using rglob_node_below by blast
  qed
  have c: "set ?here \<inter> set (concat (map ?g es)) = {}"
  proof (rule ccontr)
    assume "set ?here \<inter> set (concat (map ?g es)) \<noteq> {}"
    then obtain q where qh: "q \<in> set ?here" and qb: "q \<in> set (concat (map ?g es))"
      by blast
    from qh obtain e where "e \<in> set es" "q = p @ [fst e]" by auto
    moreover from qb obtain e' where "e' \<in> set es" "q \<in> set (?g e')" by auto
    ultimately have q: "e \<in> set es" "q = p @ [fst e]" "e' \<in> set es" "q \<in> set (?g e')"
      by simp_all
    from rglob_node_below[OF q(4)] obtain rel where "rel \<noteq> []" "q = (p @ [fst e']) @ rel"
      by blast
    with q(2) show False by simp
  qed
  from a b c show ?case by simp
qed

lemma distinct_find_files: "wf_node fs \<Longrightarrow> distinct (find_files fs input)"
  by (auto simp: find_files_def rglob_def distinct_rglob_node wf_node_lookup split: option.splits)

lemma path_snoc: "name p \<noteq> [] \<Longrightarrow> p = butlast p @ [name p]"
  by (auto simp: name_def split: if_splits)

lemma with_suffix_png_inj:
  assumes "path_suffix p = ''.svg''" and "path_suffix q = ''.svg''"
      and "with_suffix p ''.png'' = with_suffix q ''.png''"
  shows "p = q"
proof -
  have np: "name p = stem p @ ''.svg''" and nq: "name q = stem q @ ''.svg''"
    using name_split[of p] name_split[of q] assms(1,2) by simp_all
  then have ne: "name p \<noteq> []" "name q \<noteq> []" by simp_all
  from assms(3) have "butlast p @ [stem p @ ''.png''] = butlast q @ [stem q @ ''.png'']"
    by (simp add: with_suffix_png ne)
  then have "butlast p = butlast q" "stem p = stem q" by simp_all
  with np nq have "butlast p @ [name p] = butlast q @ [name q]" by simp
  then show ?thesis using path_snoc[OF ne(1)] path_snoc[OF ne(2)] by simp
qed

lemma derived_output_path:
  assumes "name p \<noteq> []"
  shows "\<exists>out. with_suffix p ''.png'' = Inr out \<and> parent out = parent p \<and> stem out = stem p
             \<and> path_suffix out = ''.png'' \<and> name out = stem p @ ''.png''"
proof -
  let ?out = "butlast p @ [stem p @ ''.png'']"
  have st: "stem p \<noteq> []" using assms by (rule stem_nonempty)
  have "with_suffix p ''.png'' = Inr ?out" using assms by (rule with_suffix_png)
  moreover have "parent ?out = parent p" by (simp add: parent_def)
  moreover have "stem ?out = stem p" using st by (rule stem_png)
  moreover have "path_suffix ?out = ''.png''" using st by (rule path_suffix_png)
  moreover have "name ?out = stem p @ ''.png''" by (rule name_snoc)
  ultimately show ?thesis by blast
qed

lemma process_file_True:
  assumes "process_file R st p = (st', evs, True)"
  shows "\<exists>ev. filter is_svg2png evs = [ev] \<and> renders_to p ev"
  using assms
  by (auto simp: process_file_def renders_to_def
           split: sum.splits if_splits prod.splits option.splits)

lemma process_all_renders:
  assumes "process_all R files (fs, [], 0, 0) = (fs', new, s, f)"
      and "\<forall>ok \<in> set (results R fs files). ok"
  shows "list_all2 renders_to files (filter is_svg2png new)"
  using assms
proof (induction files arbitrary: fs fs' new s f)
  case Nil
  then show ?case by simp
next
  case (Cons p ps)
  obtain fs1 evs1 ok where pf: "process_file R fs p = (fs1, evs1, ok)"
    by (cases "process_file R fs p") auto
  obtain fs2 new2 s2 f2 where rest: "process_all R ps (fs1, [], 0, 0) = (fs2, new2, s2, f2)"
    by (cases "process_all R ps (fs1, [], 0, 0)") auto
  have new: "new = evs1 @ new2"
    using Cons.prems(1)[unfolded process_all_Cons[OF pf rest]] by simp
  have res: "results R fs (p # ps) = ok # results R fs1 ps" using pf by simp
  from Cons.prems(2)[unfolded res] have ok: "ok" and oks: "\<forall>ok \<in> set (results R fs1 ps). ok"
    by auto
  from pf ok process_file_True[of R fs p fs1 evs1] obtain ev where
    ev: "filter is_svg2png evs1 = [ev]" "renders_to p ev" by auto
  from Cons.IH[OF rest oks] ev new show ?case by simp
qed

lemma summary_no_calls: "filter is_svg2png (summary s f n) = []"
  by (simp add: summary_def)

lemma main_renders:
  assumes "is_dir fs input" and "\<forall>ok \<in> set (results R fs (find_files fs input)). ok"
  shows "list_all2 renders_to (find_files fs input)
           (filter is_svg2png (fst (snd (main R fs input))))"
proof (cases "find_files fs input = []")
  case True
  then show ?thesis using main_nothing_found[OF assms(1) True, of R] by simp
next
  case False
  obtain fs' new s f where run:
    "process_all R (find_files fs input) (fs, [], 0, 0) = (fs', new, s, f)"
    by (cases "process_all R (find_files fs input) (fs, [], 0, 0)") auto
  show ?thesis
    using main_loop[OF assms(1) False run] process_all_renders[OF run assms(2)]
    by (simp add: summary_no_calls)
qed

lemma distinct_outputs:
  assumes "distinct files" and "\<forall>p \<in> set files. path_suffix p = ''.svg''"
  shows "distinct (map (\<lambda>p. with_suffix p ''.png'') files)"
proof -
  have "inj_on (\<lambda>p. with_suffix p ''.png'') (set files)"
    using assms(2) with_suffix_png_inj by (auto simp: inj_on_def)
  with assms(1) show ?thesis by (simp add: distinct_map)
qed

text \<open>
  What holds of the output paths. The output path of every discovered path is the path
  with its suffix replaced by \<^verbatim>\<open>.png\<close>: same parent, same stem, the name being the stem followed by \<^verbatim>\<open>.png\<close>. On a
  directory where all \<open>N\<close> discovered files convert, the run ends with code 0 after \<open>N\<close>
  calls of the renderer, one for each file in the order of discovery, each writing to
  the output path of its file. When the discovered paths are files with the suffix
  \<^verbatim>\<open>.svg\<close>, in a tree without duplicate names, the \<open>N\<close> output paths are pairwise
  different.
\<close>

theorem output_paths_of_svg_files:
  "(\<forall>p \<in> set (find_files fs input).
      \<exists>out. with_suffix p ''.png'' = Inr out \<and> parent out = parent p \<and> stem out = stem p
            \<and> path_suffix out = ''.png'' \<and> name out = stem p @ ''.png'')
   \<and> (is_dir fs input \<and> (\<forall>ok \<in> set (results R fs (find_files fs input)). ok) \<longrightarrow>
         snd (snd (main R fs input)) = 0
         \<and> list_all2 renders_to (find_files fs input)
              (filter is_svg2png (fst (snd (main R fs input))))
         \<and> length (filter is_svg2png (fst (snd (main R fs input))))
              = length (find_files fs input))
   \<and> (wf_node fs \<and> (\<forall>p \<in> set (find_files fs input). path_suffix p = ''.svg'') \<longrightarrow>
         distinct (map (\<lambda>p. with_suffix p ''.png'') (find_files fs input)))"
proof -
  have a: "\<forall>p \<in> set (find_files fs input).
      \<exists>out. with_suffix p ''.png'' = Inr out \<and> parent out = parent p \<and> stem out = stem p
            \<and> path_suffix out = ''.png'' \<and> name out = stem p @ ''.png''"
    using derived_output_path discovered_name by blast
  have b: "snd (snd (main R fs input)) = 0
         \<and> list_all2 renders_to (find_files fs input)
              (filter is_svg2png (fst (snd (main R fs input))))
         \<and> length (filter is_svg2png (fst (snd (main R fs input))))
              = length (find_files fs input)"
    if h: "is_dir fs input" "\<forall>ok \<in> set (results R fs (find_files fs input)). ok"
  proof -
    from h(2) have "False \<notin> set (results R fs (find_files fs input))" by auto
    then have code: "snd (snd (main R fs input)) = 0"
      using main_exit_code_dir[OF h(1), of R] by simp
    note calls = main_renders[OF h]
    have len: "length (filter is_svg2png (fst (snd (main R fs input))))
                 = length (find_files fs input)"
      using list_all2_lengthD[OF calls] by simp
    from code calls len show ?thesis by blast
  qed
  have c: "distinct (map (\<lambda>p. with_suffix p ''.png'') (find_files fs input))"
    if h: "wf_node fs" "\<forall>p \<in> set (find_files fs input). path_suffix p = ''.svg''"
    using distinct_find_files[OF h(1)] h(2) by (rule distinct_outputs)
  from a b c show ?thesis by blast
qed

text \<open>Three files in a tree of two levels, one of them beside an old output.\<close>

theorem output_paths_of_svg_files_witness:
  "find_files sample_svg_tree [''e'']
     = [[''e'', ''a.svg''], [''e'', ''b.svg''], [''e'', ''sub'', ''c.svg'']]
   \<and> (\<exists>out. with_suffix [''e'', ''sub'', ''c.svg''] ''.png'' = Inr out
            \<and> parent out = [''e'', ''sub''] \<and> stem out = ''c'' \<and> path_suffix out = ''.png'')
   \<and> is_dir sample_svg_tree [''e''] \<and> wf_node sample_svg_tree
   \<and> map path_suffix (find_files sample_svg_tree [''e'']) = [''.svg'', ''.svg'', ''.svg'']
   \<and> results sample_svg2png sample_svg_tree (find_files sample_svg_tree [''e''])
       = [True, True, True]
   \<and> snd (snd (main sample_svg2png sample_svg_tree [''e''])) = 0
   \<and> filter is_svg2png (fst (snd (main sample_svg2png sample_svg_tree [''e''])))
       = [Svg2png ''e/a.svg'' ''e/a.png'' 200 200,
          Svg2png ''e/b.svg'' ''e/b.png'' 200 200,
          Svg2png ''e/sub/c.svg'' ''e/sub/c.png'' 200 200]
   \<and> length (filter is_svg2png (fst (snd (main sample_svg2png sample_svg_tree [''e''])))) = 3
   \<and> distinct (map (\<lambda>p. with_suffix p ''.png'') (find_files sample_svg_tree [''e'']))"
proof -
  have files: "find_files sample_svg_tree [''e'']
     = [[''e'', ''a.svg''], [''e'', ''b.svg''], [''e'', ''sub'', ''c.svg'']]"
    by code_simp
  have d: "is_dir sample_svg_tree [''e'']" by code_simp
  have w: "wf_node sample_svg_tree" by code_simp
  have sfxs: "map path_suffix (find_files sample_svg_tree [''e'']) = [''.svg'', ''.svg'', ''.svg'']"
    unfolding files by code_simp
  have res: "results sample_svg2png sample_svg_tree (find_files sample_svg_tree [''e''])
       = [True, True, True]"
    unfolding files by code_simp
  have sfx: "\<forall>p \<in> set (find_files sample_svg_tree [''e'']). path_suffix p = ''.svg''"
    using sfxs unfolding files by simp
  have oks: "\<forall>ok \<in> set (results sample_svg2png sample_svg_tree (find_files sample_svg_tree [''e''])). ok"
    unfolding res by simp
  have mem: "[''e'', ''sub'', ''c.svg''] \<in> set (find_files sample_svg_tree [''e''])"
    unfolding files by simp
  have par: "parent [''e'', ''sub'', ''c.svg''] = [''e'', ''sub'']"
    and st: "stem [''e'', ''sub'', ''c.svg''] = ''c''"
    by code_simp+
  note inst = output_paths_of_svg_files[of sample_svg_tree "[''e'']" sample_svg2png]
  from inst[THEN conjunct1, rule_format, OF mem]
  have a: "\<exists>out. with_suffix [''e'', ''sub'', ''c.svg''] ''.png'' = Inr out
            \<and> parent out = [''e'', ''sub''] \<and> stem out = ''c'' \<and> path_suffix out = ''.png''"
    unfolding par st by blast
  from inst[THEN conjunct2, THEN conjunct1, rule_format] d oks
  have code: "snd (snd (main sample_svg2png sample_svg_tree [''e''])) = 0"
    and len: "length (filter is_svg2png (fst (snd (main sample_svg2png sample_svg_tree [''e''])))) = 3"
    unfolding files by simp_all
  from inst[THEN conjunct2, THEN conjunct2, rule_format] w sfx
  have dis: "distinct (map (\<lambda>p. with_suffix p ''.png'') (find_files sample_svg_tree [''e'']))"
    by simp
  have calls: "filter is_svg2png (fst (snd (main sample_svg2png sample_svg_tree [''e''])))
       = [Svg2png ''e/a.svg'' ''e/a.png'' 200 200,
          Svg2png ''e/b.svg'' ''e/b.png'' 200 200,
          Svg2png ''e/sub/c.svg'' ''e/sub/c.png'' 200 200]"
    by code_simp
  from files a d w sfxs res code calls len dis show ?thesis by blast
qed

text \<open>
  What \<^verbatim>\<open>find_files\<close> does find: every entry below the directory whose suffix is
  \<^verbatim>\<open>.svg\<close> (and, by \<open>find_files_shape\<close>, only entries whose name ends in the letters
  \<^verbatim>\<open>svg\<close>), in sorted order (\<open>sorted_find_files\<close>).
\<close>

lemma rglob_node_complete:
  "lookup n rel = Some m \<Longrightarrow> rel \<noteq> [] \<Longrightarrow> fnmatch (last rel) pat \<Longrightarrow>
     p @ rel \<in> set (rglob_node pat p n)"
proof (induction n rel arbitrary: p rule: lookup.induct)
  case (1 n)
  then show ?case by simp
next
  case (2 c x xs)
  then show ?case by simp
next
  case (3 es x xs)
  from "3.prems"(1) obtain k where k: "map_of es x = Some k" "lookup k xs = Some m"
    by (auto split: option.splits)
  then have mem: "(x, k) \<in> set es" by (simp add: map_of_SomeD)
  show ?case
  proof (cases "xs = []")
    case True
    with "3.prems"(3) have "fnmatch x pat" by simp
    with mem have "p @ [x] \<in> (\<lambda>e. p @ [fst e]) ` {e \<in> set es. fnmatch (fst e) pat}"
      by force
    with True show ?thesis by simp
  next
    case False
    with "3.prems"(3) have "fnmatch (last xs) pat" by simp
    from "3.IH"[OF k(1) k(2) False this, of "p @ [x]"]
    have "p @ x # xs \<in> set (rglob_node pat (p @ [x]) k)" by simp
    with mem show ?thesis by force
  qed
qed

lemma svg_files_are_found:
  assumes "lookup fs input = Some n" and "lookup n rel = Some m" and "rel \<noteq> []"
      and "path_suffix (input @ rel) = ''.svg''"
  shows "input @ rel \<in> set (find_files fs input)"
proof -
  have "name (input @ rel) = last rel" using assms(3) by (simp add: name_def)
  then have "last rel = stem (input @ rel) @ ''.svg''"
    using name_split[of "input @ rel"] assms(4) by simp
  then have "last rel = (stem (input @ rel) @ ''.'') @ ''svg''" by simp
  then have "fnmatch (last rel) ''*svg''" unfolding fnmatch_star_svg by blast
  from rglob_node_complete[OF assms(2,3) this, of input] show ?thesis
    using assms(1) by (simp add: find_files_def rglob_def)
qed

text \<open>
  C1. The pattern of \<^verbatim>\<open>find_files\<close> is \<^verbatim>\<open>*svg\<close>, with no dot, and \<^verbatim>\<open>rglob\<close> yields
  directories as well as files. In a directory that holds an SVG file, a text file named
  \<^verbatim>\<open>notsvg\<close> and a subdirectory named \<^verbatim>\<open>svg\<close>, all three are returned: a file with no
  suffix at all and a directory are in the list, which the claim excludes.
\<close>

theorem find_files_returns_more_than_svg_files:
  "find_files stray_tree [''d''] = [[''d'', ''a.svg''], [''d'', ''notsvg''], [''d'', ''svg'']]
   \<and> is_file stray_tree [''d'', ''notsvg''] \<and> path_suffix [''d'', ''notsvg''] = []
   \<and> is_dir stray_tree [''d'', ''svg'']"
  by code_simp

text \<open>
  C7. In a directory that holds two text files and no SVG file, one of them named
  \<^verbatim>\<open>notsvg\<close>, discovery is not empty: with every renderer the run calls the renderer on
  that file, and with a renderer that rejects it the run reports one file found, one
  failure, and ends with code 1, where the claim has no file found and code 0.
\<close>

theorem non_svg_file_is_processed:
  "is_dir no_svg_tree [''d'']
   \<and> is_file no_svg_tree [''d'', ''notsvg''] \<and> path_suffix [''d'', ''notsvg''] = []
   \<and> is_file no_svg_tree [''d'', ''notes.txt'']
   \<and> find_files no_svg_tree [''d''] = [[''d'', ''notsvg'']]
   \<and> (\<forall>R. Svg2png ''d/notsvg'' ''d/notsvg.png'' 200 200
             \<in> set (fst (snd (main R no_svg_tree [''d'']))))
   \<and> main sample_svg2png no_svg_tree [''d'']
       = (no_svg_tree,
          [Rglob [''d''] ''*svg'',
           Stdout ''Found 1 file(s) to process'',
           Svg2png ''d/notsvg'' ''d/notsvg.png'' 200 200,
           Stderr ''Exception processing d/notsvg: no element found'']
          @ summary 0 1 1,
          1)"
proof -
  have d: "is_dir no_svg_tree [''d'']" by code_simp
  have f: "is_file no_svg_tree [''d'', ''notsvg''] \<and> path_suffix [''d'', ''notsvg''] = []
           \<and> is_file no_svg_tree [''d'', ''notes.txt'']"
    by code_simp
  have files: "find_files no_svg_tree [''d''] = [[''d'', ''notsvg'']]" by code_simp
  have ne: "find_files no_svg_tree [''d''] \<noteq> []" unfolding files by simp
  have ws: "with_suffix [''d'', ''notsvg''] ''.png'' = Inr [''d'', ''notsvg.png'']" by code_simp
  have nx: "\<not> exists no_svg_tree [''d'', ''notsvg.png'']" by code_simp
  have s: "str_path [''d'', ''notsvg''] = ''d/notsvg''"
          "str_path [''d'', ''notsvg.png''] = ''d/notsvg.png''"
    by code_simp+
  have call: "Svg2png ''d/notsvg'' ''d/notsvg.png'' 200 200
                \<in> set (fst (snd (main R no_svg_tree [''d''])))" for R
  proof -
    obtain fs1 evs1 ok where pf: "process_file R no_svg_tree [''d'', ''notsvg''] = (fs1, evs1, ok)"
      by (cases "process_file R no_svg_tree [''d'', ''notsvg'']") auto
    have "Svg2png ''d/notsvg'' ''d/notsvg.png'' 200 200 \<in> set evs1"
      using pf process_file_no_old_output[OF ws nx, of R] unfolding s
      by (auto split: prod.splits option.splits)
    moreover have "process_all R (find_files no_svg_tree [''d'']) (no_svg_tree, [], 0, 0)
                     = (fs1, evs1, (if ok then 1 else 0), (if ok then 0 else 1))"
      unfolding files using process_all_Cons[OF pf, of "[]" fs1 "[]" 0 0] by simp
    ultimately show ?thesis using main_loop[OF d ne] by simp
  qed
  have run: "main sample_svg2png no_svg_tree [''d'']
       = (no_svg_tree,
          [Rglob [''d''] ''*svg'',
           Stdout ''Found 1 file(s) to process'',
           Svg2png ''d/notsvg'' ''d/notsvg.png'' 200 200,
           Stderr ''Exception processing d/notsvg: no element found'']
          @ summary 0 1 1,
          1)"
    by code_simp
  from d f files call run show ?thesis by blast
qed

section \<open>Discovery in a tree without duplicate names\<close>

text \<open>
  In such a tree the paths that \<^verbatim>\<open>rglob\<close> yields are the existing paths strictly below
  the starting path whose name matches, each once. So two trees in which the same paths
  exist yield the same paths, whatever the order of their listings.
\<close>

lemma lookup_append:
  "lookup fs (d @ rel) = (case lookup fs d of None \<Rightarrow> None | Some n \<Rightarrow> lookup n rel)"
proof (induction fs d rule: lookup.induct)
  case (1 n)
  then show ?case by simp
next
  case (2 c x xs)
  then show ?case by simp
next
  case (3 es x xs)
  then show ?case by (cases "map_of es x") auto
qed

lemma map_of_distinct_entry: "distinct (map fst es) \<Longrightarrow> (x, k) \<in> set es \<Longrightarrow> map_of es x = Some k"
  by simp

lemma rglob_node_sound:
  "wf_node n \<Longrightarrow> q \<in> set (rglob_node pat p n) \<Longrightarrow>
     \<exists>rel. rel \<noteq> [] \<and> q = p @ rel \<and> lookup n rel \<noteq> None \<and> fnmatch (last rel) pat"
proof (induction pat p n arbitrary: q rule: rglob_node.induct)
  case (1 pat p c)
  then show ?case by simp
next
  case (2 pat p es)
  from "2.prems"(1) have d: "distinct (map fst es)"
    and ch: "\<And>e. e \<in> set es \<Longrightarrow> wf_node (snd e)" by auto
  from "2.prems"(2) consider
    (here) e where "e \<in> set es" "fnmatch (fst e) pat" "q = p @ [fst e]"
    | (below) e where "e \<in> set es" "q \<in> set (rglob_node pat (p @ [fst e]) (snd e))"
    by auto
  then show ?case
  proof cases
    case here
    from here(1) have "map_of es (fst e) = Some (snd e)"
      using map_of_distinct_entry[OF d, of "fst e" "snd e"] by simp
    then have "[fst e] \<noteq> [] \<and> q = p @ [fst e] \<and> lookup (Dir es) [fst e] \<noteq> None
               \<and> fnmatch (last [fst e]) pat"
      using here by simp
    then show ?thesis by blast
  next
    case below
    from "2.IH"[OF below(1) ch[OF below(1)] below(2)] obtain rel where
      r: "rel \<noteq> []" "q = (p @ [fst e]) @ rel" "lookup (snd e) rel \<noteq> None"
         "fnmatch (last rel) pat" by blast
    from below(1) have "map_of es (fst e) = Some (snd e)"
      using map_of_distinct_entry[OF d, of "fst e" "snd e"] by simp
    with r have "fst e # rel \<noteq> [] \<and> q = p @ (fst e # rel)
                 \<and> lookup (Dir es) (fst e # rel) \<noteq> None \<and> fnmatch (last (fst e # rel)) pat"
      by simp
    then show ?thesis by blast
  qed
qed

lemma set_rglob:
  assumes "wf_node fs"
  shows "set (rglob fs d pat)
           = {q. \<exists>rel. rel \<noteq> [] \<and> q = d @ rel \<and> exists fs q \<and> fnmatch (name q) pat}"
proof (cases "lookup fs d")
  case None
  then show ?thesis by (auto simp: rglob_def exists_def lookup_append)
next
  case (Some n)
  have wf: "wf_node n" using assms Some by (rule wf_node_lookup)
  have nm: "name (d @ rel) = last rel" if "rel \<noteq> []" for rel
    using that by (simp add: name_def)
  show ?thesis
  proof (intro set_eqI iffI)
    fix q assume "q \<in> set (rglob fs d pat)"
    then have "q \<in> set (rglob_node pat d n)" using Some by (simp add: rglob_def)
    from rglob_node_sound[OF wf this] obtain rel where
      r: "rel \<noteq> []" "q = d @ rel" "lookup n rel \<noteq> None" "fnmatch (last rel) pat" by blast
    then have "exists fs q" using Some by (simp add: exists_def lookup_append)
    with r nm show "q \<in> {q. \<exists>rel. rel \<noteq> [] \<and> q = d @ rel \<and> exists fs q \<and> fnmatch (name q) pat}"
      by auto
  next
    fix q assume "q \<in> {q. \<exists>rel. rel \<noteq> [] \<and> q = d @ rel \<and> exists fs q \<and> fnmatch (name q) pat}"
    then obtain rel where r: "rel \<noteq> []" "q = d @ rel" "exists fs q" "fnmatch (name q) pat"
      by blast
    then obtain m where "lookup n rel = Some m"
      using Some by (auto simp: exists_def lookup_append)
    from rglob_node_complete[OF this r(1), of pat d] r nm
    show "q \<in> set (rglob fs d pat)" using Some by (simp add: rglob_def)
  qed
qed

lemma distinct_rglob: "wf_node fs \<Longrightarrow> distinct (rglob fs d pat)"
  by (auto simp: rglob_def distinct_rglob_node wf_node_lookup split: option.splits)

lemma same_paths_same_listing:
  assumes "wf_node fs1" and "wf_node fs2" and "\<And>q. exists fs1 q = exists fs2 q"
  shows "mset (rglob fs1 d pat) = mset (rglob fs2 d pat)"
proof -
  have "set (rglob fs1 d pat) = set (rglob fs2 d pat)"
    unfolding set_rglob[OF assms(1)] set_rglob[OF assms(2)] using assms(3) by simp
  then show ?thesis
    using distinct_rglob[OF assms(1)] distinct_rglob[OF assms(2)]
    by (simp add: set_eq_iff_mset_eq_distinct)
qed

lemma set_find_files_wf:
  assumes "wf_node fs"
  shows "set (find_files fs d)
           = {q. \<exists>rel pre. rel \<noteq> [] \<and> q = d @ rel \<and> exists fs q \<and> name q = pre @ ''svg''}"
  unfolding set_find_files set_rglob[OF assms] fnmatch_star_svg by blast

text \<open>
  C4. A directory of valid SVG files does not always give one PNG file for each and
  code 0, since discovery returns more than the SVG files. Where the one SVG file lies
  in a directory named \<^verbatim>\<open>svg\<close>, that directory is discovered too: every renderer is
  called on it, and with a renderer that raises on a directory the run ends with code 1,
  though the file itself is converted. Where \<^verbatim>\<open>a.svg\<close> lies beside a file \<^verbatim>\<open>a.xsvg\<close> of
  SVG content, both are discovered and converted, with code 0, and both are written
  to \<^verbatim>\<open>a.png\<close>: the second conversion deletes the output of the first, and one PNG file
  is left for the two.
\<close>

theorem valid_svg_files_without_n_outputs:
  "is_dir svg_dir_tree [''d''] \<and> is_dir svg_dir_tree [''d'', ''svg'']
   \<and> is_file svg_dir_tree [''d'', ''svg'', ''a.svg'']
   \<and> find_files svg_dir_tree [''d''] = [[''d'', ''svg''], [''d'', ''svg'', ''a.svg'']]
   \<and> (\<forall>R. Svg2png ''d/svg'' ''d/svg.png'' 200 200
             \<in> set (fst (snd (main R svg_dir_tree [''d'']))))
   \<and> results sample_svg2png svg_dir_tree (find_files svg_dir_tree [''d'']) = [False, True]
   \<and> snd (snd (main sample_svg2png svg_dir_tree [''d''])) = 1
   \<and> fst (main sample_svg2png svg_dir_tree [''d''])
       = Dir [(''d'',
               Dir [(''svg'', Dir [(''a.svg'', File ''<svg/>''), (''a.png'', File ''PNG'')])])]
   \<and> is_dir clash_tree [''d'']
   \<and> find_files clash_tree [''d''] = [[''d'', ''a.svg''], [''d'', ''a.xsvg'']]
   \<and> with_suffix [''d'', ''a.svg''] ''.png'' = Inr [''d'', ''a.png'']
   \<and> with_suffix [''d'', ''a.xsvg''] ''.png'' = Inr [''d'', ''a.png'']
   \<and> results sample_svg2png clash_tree (find_files clash_tree [''d'']) = [True, True]
   \<and> snd (snd (main sample_svg2png clash_tree [''d''])) = 0
   \<and> filter (\<lambda>ev. \<not> is_print ev) (fst (snd (main sample_svg2png clash_tree [''d''])))
       = [Rglob [''d''] ''*svg'',
          Svg2png ''d/a.svg'' ''d/a.png'' 200 200,
          Unlink [''d'', ''a.png''],
          Svg2png ''d/a.xsvg'' ''d/a.png'' 200 200]
   \<and> fst (main sample_svg2png clash_tree [''d''])
       = Dir [(''d'',
               Dir [(''a.svg'', File ''<svg/>''), (''a.xsvg'', File ''<svg/>''),
                    (''a.png'', File ''PNG'')])]"
proof -
  have d: "is_dir svg_dir_tree [''d'']" by code_simp
  have k: "is_dir svg_dir_tree [''d'', ''svg''] \<and> is_file svg_dir_tree [''d'', ''svg'', ''a.svg'']"
    by code_simp
  have files: "find_files svg_dir_tree [''d''] = [[''d'', ''svg''], [''d'', ''svg'', ''a.svg'']]"
    by code_simp
  have ne: "find_files svg_dir_tree [''d''] \<noteq> []" unfolding files by simp
  have ws: "with_suffix [''d'', ''svg''] ''.png'' = Inr [''d'', ''svg.png'']" by code_simp
  have nx: "\<not> exists svg_dir_tree [''d'', ''svg.png'']" by code_simp
  have s: "str_path [''d'', ''svg''] = ''d/svg''" "str_path [''d'', ''svg.png''] = ''d/svg.png''"
    by code_simp+
  have call: "Svg2png ''d/svg'' ''d/svg.png'' 200 200
                \<in> set (fst (snd (main R svg_dir_tree [''d''])))" for R
  proof -
    obtain fs1 evs1 ok where pf: "process_file R svg_dir_tree [''d'', ''svg''] = (fs1, evs1, ok)"
      by (cases "process_file R svg_dir_tree [''d'', ''svg'']") auto
    have in1: "Svg2png ''d/svg'' ''d/svg.png'' 200 200 \<in> set evs1"
      using pf process_file_no_old_output[OF ws nx, of R] unfolding s
      by (auto split: prod.splits option.splits)
    obtain fs2 new2 s2 f2 where rest:
      "process_all R [[''d'', ''svg'', ''a.svg'']] (fs1, [], 0, 0) = (fs2, new2, s2, f2)"
      by (cases "process_all R [[''d'', ''svg'', ''a.svg'']] (fs1, [], 0, 0)") auto
    have "process_all R (find_files svg_dir_tree [''d'']) (svg_dir_tree, [], 0, 0)
            = (fs2, evs1 @ new2, (if ok then 1 else 0) + s2, (if ok then 0 else 1) + f2)"
      unfolding files by (rule process_all_Cons[OF pf rest])
    from main_loop[OF d ne this] in1 show ?thesis by simp
  qed
  have r1: "results sample_svg2png svg_dir_tree (find_files svg_dir_tree [''d'']) = [False, True]"
    unfolding files by code_simp
  have c1: "snd (snd (main sample_svg2png svg_dir_tree [''d''])) = 1" by code_simp
  have t1: "fst (main sample_svg2png svg_dir_tree [''d''])
       = Dir [(''d'',
               Dir [(''svg'', Dir [(''a.svg'', File ''<svg/>''), (''a.png'', File ''PNG'')])])]"
    by code_simp
  have d2: "is_dir clash_tree [''d'']" by code_simp
  have files2: "find_files clash_tree [''d''] = [[''d'', ''a.svg''], [''d'', ''a.xsvg'']]"
    by code_simp
  have w1: "with_suffix [''d'', ''a.svg''] ''.png'' = Inr [''d'', ''a.png'']" by code_simp
  have w2: "with_suffix [''d'', ''a.xsvg''] ''.png'' = Inr [''d'', ''a.png'']" by code_simp
  have r2: "results sample_svg2png clash_tree (find_files clash_tree [''d'']) = [True, True]"
    unfolding files2 by code_simp
  have c2: "snd (snd (main sample_svg2png clash_tree [''d''])) = 0" by code_simp
  have e2: "filter (\<lambda>ev. \<not> is_print ev) (fst (snd (main sample_svg2png clash_tree [''d''])))
       = [Rglob [''d''] ''*svg'',
          Svg2png ''d/a.svg'' ''d/a.png'' 200 200,
          Unlink [''d'', ''a.png''],
          Svg2png ''d/a.xsvg'' ''d/a.png'' 200 200]"
    by code_simp
  have t2: "fst (main sample_svg2png clash_tree [''d''])
       = Dir [(''d'',
               Dir [(''a.svg'', File ''<svg/>''), (''a.xsvg'', File ''<svg/>''),
                    (''a.png'', File ''PNG'')])]"
    by code_simp
  from d k files call r1 c1 t1 d2 files2 w1 w2 r2 c2 e2 t2 show ?thesis by blast
qed

end
